theory Spec2Isabelle
  imports Complex_Main "HOL-Library.Log_Nat"
begin

section \<open>Vestaboard message-matrix composer (main.py)\<close>

text \<open>
  The development embeds the pure part of \<^verbatim>\<open>main.py\<close>: the class \<^verbatim>\<open>Vestaboard\<close> with
  \<^verbatim>\<open>convert_text_to_codes\<close>, \<^verbatim>\<open>create_gradient_background\<close> and
  \<^verbatim>\<open>create_message_matrix\<close>. The methods never read \<^verbatim>\<open>self\<close>, so it is left out.

  Conventions of the embedding:
  \<^item> a Python \<^verbatim>\<open>str\<close> is a \<open>string\<close>; the text is taken to be ASCII (on code points
    above 127 Python would apply the Unicode case mapping and white space classes);
  \<^item> Python's unbounded \<^verbatim>\<open>int\<close> is \<open>int\<close>; list lengths and indices of \<^verbatim>\<open>enumerate\<close>
    are \<open>nat\<close>;
  \<^item> a Python \<^verbatim>\<open>float\<close> is the rational number it denotes, and each float operation is the
    exact operation followed by rounding to the nearest binary64 value (\<open>fl\<close> below);
  \<^item> a cell of a justified line is \<open>int option\<close>, with \<open>None\<close> for Python's \<^verbatim>\<open>None\<close>;
  \<^item> the only exception the composer can raise is \<^verbatim>\<open>IndexError\<close>, from the item assignment
    \<^verbatim>\<open>message_matrix[i][j] = code\<close>; a result is \<open>error + grid\<close>;
  \<^item> \<^verbatim>\<open>CHARACTER_CODES\<close> is loaded from \<^verbatim>\<open>character_codes.json\<close>, which is not part of the
    sources: the table is a parameter of every function that reads it.
\<close>

subsection \<open>Strings\<close>

definition isspace :: "char \<Rightarrow> bool" where
  \<comment> \<open>The ASCII characters on which \<^verbatim>\<open>str.split()\<close> splits: TAB, LF, VT, FF, CR,
      FS, GS, RS, US and the space.\<close>
  "isspace c = (let n = (of_char c :: nat) in (9 \<le> n \<and> n \<le> 13) \<or> (28 \<le> n \<and> n \<le> 32))"

definition lower_char :: "char \<Rightarrow> char" where
  "lower_char c = (let n = (of_char c :: nat) in if 65 \<le> n \<and> n \<le> 90 then char_of (n + 32) else c)"

definition lower :: "string \<Rightarrow> string" where
  "lower s = map lower_char s"

definition upper :: "char \<Rightarrow> string" where
  \<comment> \<open>\<^verbatim>\<open>char.upper()\<close> of a one-character string; the result is a string.\<close>
  "upper c = (let n = (of_char c :: nat) in if 97 \<le> n \<and> n \<le> 122 then [char_of (n - 32)] else [c])"

fun split_from :: "string \<Rightarrow> string \<Rightarrow> string list" where
  "split_from w [] = (if w = [] then [] else [w])"
| "split_from w (c # cs) =
     (if isspace c then (if w = [] then split_from [] cs else w # split_from [] cs)
      else split_from (w @ [c]) cs)"

definition str_split :: "string \<Rightarrow> string list" where
  \<comment> \<open>\<^verbatim>\<open>message.split()\<close>: the maximal runs of characters that are not white space.\<close>
  "str_split s = split_from [] s"

subsection \<open>Tables\<close>

type_synonym code_table = "string \<rightharpoonup> int"

definition COLOR_CODES :: "string \<rightharpoonup> int" where
  "COLOR_CODES = map_of
     [(''red'', 63), (''orange'', 64), (''yellow'', 65), (''green'', 66),
      (''blue'', 67), (''violet'', 68), (''white'', 69), (''black'', 70)]"

definition dict_get :: "('k \<rightharpoonup> 'v) \<Rightarrow> 'k \<Rightarrow> 'v \<Rightarrow> 'v" where
  \<comment> \<open>\<^verbatim>\<open>d.get(key, default)\<close>\<close>
  "dict_get d k dflt = (case d k of Some v \<Rightarrow> v | None \<Rightarrow> dflt)"

subsection \<open>\<^verbatim>\<open>convert_text_to_codes\<close>\<close>

definition convert_text_to_codes :: "code_table \<Rightarrow> string \<Rightarrow> int list" where
  "convert_text_to_codes CHARACTER_CODES text =
     map (\<lambda>ch. if ch \<noteq> CHR '' '' then dict_get CHARACTER_CODES (upper ch) 0 else 0) text"

subsection \<open>Floating point\<close>

definition round_half_even :: "rat \<Rightarrow> int" where
  \<comment> \<open>the nearest integer, a tie going to the even one\<close>
  "round_half_even x =
     (let f = \<lfloor>x\<rfloor>; r = x - of_int f
      in if r < 1 / 2 then f else if 1 / 2 < r then f + 1 else if even f then f else f + 1)"

definition float_exponent :: "rat \<Rightarrow> int" where
  \<comment> \<open>for \<open>x \<noteq> 0\<close> the \<open>e\<close> with \<open>2 ^ e \<le> \<bar>x\<bar> < 2 ^ (e + 1)\<close>\<close>
  "float_exponent x =
     (case quotient_of \<bar>x\<bar> of (p, q) \<Rightarrow>
        let k = bitlen p - bitlen q in if 2 powi k \<le> \<bar>x\<bar> then k else k - 1)"

definition fl :: "rat \<Rightarrow> rat" where
  \<comment> \<open>Rounding to the nearest binary64 value, ties to even: 53 significant bits.
      The exponent range is not modelled; every value that the gradient computes lies
      between \<open>2 ^ -8\<close> and \<open>2 ^ 7\<close> in magnitude or is zero, far from overflow and from the
      subnormal numbers.\<close>
  "fl x = (if x = 0 then 0
           else let u = 2 powi (float_exponent x - 52)
                in of_int (round_half_even (x / u)) * u)"

definition int_true_divide :: "int \<Rightarrow> int \<Rightarrow> rat" where
  \<comment> \<open>\<^verbatim>\<open>a / b\<close> on two ints with \<open>b \<noteq> 0\<close>: the correctly rounded quotient\<close>
  "int_true_divide a b = fl (of_int a / of_int b)"

definition float_of_int :: "int \<Rightarrow> rat" where
  "float_of_int n = fl (of_int n)"

definition float_mul :: "rat \<Rightarrow> rat \<Rightarrow> rat" where
  "float_mul a b = fl (a * b)"

definition float_add :: "rat \<Rightarrow> rat \<Rightarrow> rat" where
  "float_add a b = fl (a + b)"

definition int_of_float :: "rat \<Rightarrow> int" where
  \<comment> \<open>\<^verbatim>\<open>int(x)\<close> truncates towards zero\<close>
  "int_of_float x = (if 0 \<le> x then \<lfloor>x\<rfloor> else \<lceil>x\<rceil>)"

subsection \<open>\<^verbatim>\<open>create_gradient_background\<close>\<close>

type_synonym grid = "int list list"

definition gradient_code :: "int \<Rightarrow> int \<Rightarrow> nat \<Rightarrow> nat \<Rightarrow> int" where
  \<comment> \<open>the body of the inner loop: \<^verbatim>\<open>ratio\<close>, then \<^verbatim>\<open>code\<close>\<close>
  "gradient_code start_code end_code row col =
     (let ratio = int_true_divide (int (row * 22 + col)) (6 * 22 - 1)
      in int_of_float
           (float_add (float_of_int start_code)
              (float_mul ratio (float_of_int (end_code - start_code)))))"

definition create_gradient_background :: "string \<Rightarrow> string \<Rightarrow> grid" where
  "create_gradient_background start_color end_color =
     (let start_code = dict_get COLOR_CODES (lower start_color) 70;
          end_code = dict_get COLOR_CODES (lower end_color) 70
      in map (\<lambda>row. map (\<lambda>col. gradient_code start_code end_code row col) [0..<22]) [0..<6])"

subsection \<open>\<^verbatim>\<open>create_message_matrix\<close>\<close>

datatype error = IndexError

datatype justify = Left | Right | Center

definition background_matrix :: "string option \<Rightarrow> (string \<times> string) option \<Rightarrow> grid" where
  \<comment> \<open>lines 106 to 110; \<^verbatim>\<open>if color\<close> is false on \<^verbatim>\<open>None\<close> and on the empty string\<close>
  "background_matrix color gradient =
     (case gradient of
        Some (start_color, end_color) \<Rightarrow> create_gradient_background start_color end_color
      | None \<Rightarrow>
          (let default_fill_code =
                 (case color of
                    None \<Rightarrow> 0
                  | Some c \<Rightarrow> if c \<noteq> [] then dict_get COLOR_CODES (lower c) 0 else 0)
           in replicate 6 (replicate 22 default_fill_code)))"

definition wrap_step :: "string list \<times> string \<Rightarrow> string \<Rightarrow> string list \<times> string" where
  \<comment> \<open>one round of the loop of lines 117 to 122 on the pair \<^verbatim>\<open>(lines, current_line)\<close>\<close>
  "wrap_step st word =
     (case st of (lines, current_line) \<Rightarrow>
        if length current_line + length word + (if current_line \<noteq> [] then 1 else 0) \<le> 22
        then (lines, current_line @ (if current_line \<noteq> [] then '' '' else []) @ word)
        else (lines @ [current_line], word))"

definition wrap_lines :: "string list \<Rightarrow> string list" where
  \<comment> \<open>lines 114 to 125\<close>
  "wrap_lines words =
     (case foldl wrap_step ([], []) words of
        (lines, current_line) \<Rightarrow> if current_line \<noteq> [] then lines @ [current_line] else lines)"

definition justify_line :: "justify \<Rightarrow> int list \<Rightarrow> int option list" where
  \<comment> \<open>lines 131 to 137; \<^verbatim>\<open>[None] * k\<close> is empty when \<open>k\<close> is negative, and \<^verbatim>\<open>//\<close> is the
      floor division\<close>
  "justify_line j codes =
     (let n = int (length codes)
      in case j of
           Left \<Rightarrow> map Some codes @ replicate (nat (22 - n)) None
         | Right \<Rightarrow> replicate (nat (22 - n)) None @ map Some codes
         | Center \<Rightarrow>
             (let padding = (22 - n) div 2
              in replicate (nat padding) None @ map Some codes
                   @ replicate (nat (22 - n - padding)) None))"

definition center_vertically :: "justify \<Rightarrow> int option list list \<Rightarrow> int option list list" where
  \<comment> \<open>lines 141 to 143\<close>
  "center_vertically j justified_lines =
     (if j = Center
      then (let n = int (length justified_lines); top_padding = (6 - n) div 2
            in replicate (nat top_padding) (replicate 22 None) @ justified_lines
                 @ replicate (nat (6 - n - top_padding)) (replicate 22 None))
      else justified_lines)"

definition set_cell :: "grid \<Rightarrow> nat \<Rightarrow> nat \<Rightarrow> int \<Rightarrow> error + grid" where
  \<comment> \<open>\<^verbatim>\<open>message_matrix[i][j] = code\<close> with indices that are never negative\<close>
  "set_cell m i j code =
     (if i < length m \<and> j < length (m ! i) then Inr (m[i := (m ! i)[j := code] ])
      else Inl IndexError)"

fun overlay_line :: "nat \<Rightarrow> nat \<Rightarrow> int option list \<Rightarrow> grid \<Rightarrow> error + grid" where
  "overlay_line i j [] m = Inr m"
| "overlay_line i j (None # cells) m = overlay_line i (Suc j) cells m"
| "overlay_line i j (Some code # cells) m =
     (case set_cell m i j code of
        Inl e \<Rightarrow> Inl e
      | Inr m' \<Rightarrow> overlay_line i (Suc j) cells m')"

fun overlay :: "nat \<Rightarrow> int option list list \<Rightarrow> grid \<Rightarrow> error + grid" where
  "overlay i [] m = Inr m"
| "overlay i (justified_line # rest) m =
     (case overlay_line i 0 justified_line m of
        Inl e \<Rightarrow> Inl e
      | Inr m' \<Rightarrow> overlay (Suc i) rest m')"

definition justified_lines :: "code_table \<Rightarrow> string \<Rightarrow> justify \<Rightarrow> int option list list" where
  \<comment> \<open>lines 113 to 143: the value of \<^verbatim>\<open>justified_lines\<close> when the last loop starts\<close>
  "justified_lines CHARACTER_CODES message j =
     center_vertically j
       (map (\<lambda>line. justify_line j (convert_text_to_codes CHARACTER_CODES line))
          (take 6 (wrap_lines (str_split message))))"

definition create_message_matrix ::
  "code_table \<Rightarrow> string \<Rightarrow> string option \<Rightarrow> justify \<Rightarrow> (string \<times> string) option \<Rightarrow> error + grid"
where
  "create_message_matrix CHARACTER_CODES message color j gradient =
     overlay 0 (justified_lines CHARACTER_CODES message j) (background_matrix color gradient)"

subsection \<open>Words written with single spaces\<close>

text \<open>
  The composer has no such function: \<open>join_words\<close> is Python's \<^verbatim>\<open>" ".join(words)\<close>, the
  words of a message written with single separating spaces. It serves to state the wrap
  boundary.
\<close>

fun join_words :: "string list \<Rightarrow> string" where
  "join_words [] = []"
| "join_words [w] = w"
| "join_words (w # v # ws) = w @ '' '' @ join_words (v # ws)"

section \<open>The overlay loop\<close>

lemma set_cell_shape: "set_cell m i j v = Inr m' \<Longrightarrow> map length m' = map length m"
  by (auto simp: set_cell_def map_update list_update_same_conv split: if_splits)

lemma overlay_line_shape:
  "overlay_line i j cells m = Inr m' \<Longrightarrow> map length m' = map length m"
proof (induction i j cells m rule: overlay_line.induct)
  case (3 i j code cells m)
  then show ?case by (auto split: sum.splits dest: set_cell_shape)
qed auto

lemma overlay_shape: "overlay i ls m = Inr m' \<Longrightarrow> map length m' = map length m"
proof (induction i ls m rule: overlay.induct)
  case (2 i l rest m)
  then show ?case by (auto split: sum.splits dest: overlay_line_shape)
qed auto

lemma overlay_line_in_range:
  "overlay_line i j cells m = Inr m' \<Longrightarrow> k < length cells \<Longrightarrow> cells ! k \<noteq> None
     \<Longrightarrow> i < length m \<and> j + k < length (m ! i)"
proof (induction i j cells m arbitrary: k rule: overlay_line.induct)
  case (1 i j m)
  then show ?case by simp
next
  case (2 i j cells m)
  then show ?case by (cases k) auto
next
  case (3 i j code cells m)
  from "3.prems"(1) obtain m1 where m1: "set_cell m i j code = Inr m1"
    and rest: "overlay_line i (Suc j) cells m1 = Inr m'"
    by (auto split: sum.splits)
  from m1 have here: "i < length m" "j < length (m ! i)"
    by (auto simp: set_cell_def split: if_splits)
  from m1 have shape: "map length m1 = map length m" by (rule set_cell_shape)
  show ?case
  proof (cases k)
    case 0
    with here show ?thesis by simp
  next
    case (Suc k')
    with "3.prems" have "k' < length cells" "cells ! k' \<noteq> None" by auto
    from "3.IH"[OF m1 rest this] have "i < length m1 \<and> Suc j + k' < length (m1 ! i)" .
    moreover have "length (m1 ! i) = length (m ! i)"
      using shape here(1) by (metis length_map nth_map)
    ultimately show ?thesis using Suc here by simp
  qed
qed

lemma overlay_in_range:
  "overlay i ls m = Inr m' \<Longrightarrow> r < length ls \<Longrightarrow> k < length (ls ! r) \<Longrightarrow> ls ! r ! k \<noteq> None
     \<Longrightarrow> i + r < length m \<and> k < length (m ! (i + r))"
proof (induction i ls m arbitrary: r rule: overlay.induct)
  case (1 i m)
  then show ?case by simp
next
  case (2 i l rest m)
  from "2.prems"(1) obtain m1 where m1: "overlay_line i 0 l m = Inr m1"
    and rest: "overlay (Suc i) rest m1 = Inr m'"
    by (auto split: sum.splits)
  from m1 have shape: "map length m1 = map length m" by (rule overlay_line_shape)
  show ?case
  proof (cases r)
    case 0
    with "2.prems" overlay_line_in_range[OF m1, of k] show ?thesis by simp
  next
    case (Suc r')
    with "2.prems" have "r' < length rest" "k < length (rest ! r')" "rest ! r' ! k \<noteq> None" by auto
    from "2.IH"[OF m1 rest this] have *: "Suc i + r' < length m1 \<and> k < length (m1 ! (Suc i + r'))" .
    have len: "length m1 = length m" using shape by (metis length_map)
    moreover have "length (m1 ! (Suc i + r')) = length (m ! (Suc i + r'))"
      using shape * len by (metis nth_map)
    ultimately show ?thesis using Suc * by simp
  qed
qed

lemma overlay_line_total:
  "\<forall>k<length cells. cells ! k \<noteq> None \<longrightarrow> i < length m \<and> j + k < length (m ! i)
     \<Longrightarrow> \<exists>m'. overlay_line i j cells m = Inr m'"
proof (induction i j cells m rule: overlay_line.induct)
  case (1 i j m)
  then show ?case by simp
next
  case (2 i j cells m)
  have "\<forall>k<length cells. cells ! k \<noteq> None \<longrightarrow> i < length m \<and> Suc j + k < length (m ! i)"
    using "2.prems" by force
  then show ?case using "2.IH" by simp
next
  case (3 i j code cells m)
  from "3.prems" have here: "i < length m" "j < length (m ! i)" by force+
  then obtain m1 where m1: "set_cell m i j code = Inr m1" by (auto simp: set_cell_def)
  then have shape: "map length m1 = map length m" by (rule set_cell_shape)
  then have len: "length m1 = length m" "length (m1 ! i) = length (m ! i)"
    using here(1) by (metis length_map, metis length_map nth_map)
  have "\<forall>k<length cells. cells ! k \<noteq> None \<longrightarrow> i < length m1 \<and> Suc j + k < length (m1 ! i)"
    using "3.prems" len by force
  from "3.IH"[OF m1 this] show ?case using m1 by simp
qed

lemma overlay_total:
  "\<forall>r<length ls. \<forall>k<length (ls ! r). ls ! r ! k \<noteq> None \<longrightarrow> i + r < length m \<and> k < length (m ! (i + r))
     \<Longrightarrow> \<exists>m'. overlay i ls m = Inr m'"
proof (induction i ls m rule: overlay.induct)
  case (1 i m)
  then show ?case by simp
next
  case (2 i l rest m)
  have "\<forall>k<length l. l ! k \<noteq> None \<longrightarrow> i < length m \<and> 0 + k < length (m ! i)"
    using "2.prems" by force
  from overlay_line_total[OF this] obtain m1 where m1: "overlay_line i 0 l m = Inr m1" by blast
  then have shape: "map length m1 = map length m" by (rule overlay_line_shape)
  have "\<forall>r<length rest. \<forall>k<length (rest ! r). rest ! r ! k \<noteq> None
      \<longrightarrow> Suc i + r < length m1 \<and> k < length (m1 ! (Suc i + r))"
  proof (intro allI impI)
    fix r k assume a: "r < length rest" "k < length (rest ! r)" "rest ! r ! k \<noteq> None"
    with "2.prems" have b: "i + Suc r < length m \<and> k < length (m ! (i + Suc r))"
      by (metis Suc_less_eq length_Cons nth_Cons_Suc)
    have "length m1 = length m" using shape by (metis length_map)
    moreover have "length (m1 ! (Suc i + r)) = length (m ! (Suc i + r))"
      using shape b by (metis add_Suc_right add_Suc length_map nth_map)
    ultimately show "Suc i + r < length m1 \<and> k < length (m1 ! (Suc i + r))" using b by simp
  qed
  from "2.IH"[OF m1 this] show ?case using m1 by simp
qed

lemma overlay_line_transparent:
  "\<forall>c\<in>set cells. c = None \<Longrightarrow> overlay_line i j cells m = Inr m"
  by (induction i j cells m rule: overlay_line.induct) auto

lemma overlay_transparent:
  "\<forall>l\<in>set ls. \<forall>c\<in>set l. c = None \<Longrightarrow> overlay i ls m = Inr m"
  by (induction i ls m rule: overlay.induct) (auto simp: overlay_line_transparent)

section \<open>Background shape, splitting and over-long words\<close>

lemma create_gradient_background_shape:
  "map length (create_gradient_background s e) = replicate 6 22"
  by (simp add: create_gradient_background_def Let_def comp_def map_replicate_const)

lemma background_matrix_shape: "map length (background_matrix color gradient) = replicate 6 22"
  by (auto simp: background_matrix_def create_gradient_background_shape Let_def split: option.splits)

lemma background_matrix_length: "length (background_matrix color gradient) = 6"
  using background_matrix_shape[of color gradient] by (metis length_map length_replicate)

lemma background_matrix_row: "r < 6 \<Longrightarrow> length (background_matrix color gradient ! r) = 22"
  using background_matrix_shape[of color gradient] background_matrix_length[of color gradient]
  by (metis nth_map nth_replicate)

lemma split_from_word:
  "\<forall>c\<in>set cs. \<not> isspace c \<Longrightarrow> split_from w cs = (if w @ cs = [] then [] else [w @ cs])"
  by (induction cs arbitrary: w) auto

lemma split_from_blank:
  "\<forall>c\<in>set cs. isspace c \<Longrightarrow> split_from [] cs = []"
  by (induction cs) auto

lemma wrap_lines_long_word: "22 < length w \<Longrightarrow> wrap_lines [w] = [ [], w]"
  by (auto simp: wrap_lines_def wrap_step_def)

lemma length_convert_text_to_codes [simp]:
  "length (convert_text_to_codes cc text) = length text"
  by (simp add: convert_text_to_codes_def)

lemma long_word_raises:
  assumes "\<forall>c\<in>set w. \<not> isspace c" and "22 < length w"
  shows "create_message_matrix cc w color j gradient = Inl IndexError"
proof -
  let ?codes = "convert_text_to_codes cc w"
  let ?ls = "justified_lines cc w j"
  let ?r = "if j = Center then 3 else 1 :: nat"
  from assms have sp: "str_split w = [w]"
    by (auto simp: str_split_def split_from_word)
  have ls: "?r < length ?ls \<and> ?ls ! ?r = map Some ?codes"
    using assms(2)
    by (cases j) (simp_all add: justified_lines_def sp wrap_lines_long_word justify_line_def
        center_vertically_def Let_def nth_append convert_text_to_codes_def numeral_eq_Suc)
  have cell: "22 < length (?ls ! ?r) \<and> ?ls ! ?r ! 22 \<noteq> None"
    using ls assms(2) by simp
  have "create_message_matrix cc w color j gradient \<noteq> Inr m'" for m'
  proof
    assume "create_message_matrix cc w color j gradient = Inr m'"
    then have ov: "overlay 0 ?ls (background_matrix color gradient) = Inr m'"
      by (simp add: create_message_matrix_def)
    from overlay_in_range[OF ov, of ?r 22] ls cell
    have "?r < 6 \<and> 22 < length (background_matrix color gradient ! ?r)"
      by (simp add: background_matrix_length)
    then show False using background_matrix_row[of ?r color gradient] by (simp split: if_splits)
  qed
  then show ?thesis
    by (cases "create_message_matrix cc w color j gradient") (auto intro: error.exhaust)
qed

section \<open>Rounding to binary64\<close>

lemma round_half_even_error: "\<bar>of_int (round_half_even y) - y\<bar> \<le> 1 / 2"
proof -
  have "of_int \<lfloor>y\<rfloor> \<le> y" "y < of_int \<lfloor>y\<rfloor> + 1" by linarith+
  then show ?thesis
    by (auto simp: round_half_even_def Let_def abs_le_iff)
qed

lemma float_exponent_le:
  assumes "x \<noteq> 0"
  shows "2 powi (float_exponent x) \<le> \<bar>x\<bar>"
proof -
  obtain p q where pq: "quotient_of \<bar>x\<bar> = (p, q)" by (cases "quotient_of \<bar>x\<bar>")
  then have q: "0 < q" and x: "\<bar>x\<bar> = of_int p / of_int q"
    by (auto dest: quotient_of_denom_pos quotient_of_div)
  from assms have "0 < \<bar>x\<bar>" by simp
  with x q have p: "0 < p" by (simp add: zero_less_divide_iff)
  let ?k = "bitlen p - bitlen q"
  have bp: "1 \<le> bitlen p" and bq: "1 \<le> bitlen q" using p q by (auto simp: bitlen_alt_def)
  have "(2::int) ^ nat (bitlen p - 1) \<le> p" using bitlen_bounds[OF p] by simp
  then have "(of_int ((2::int) ^ nat (bitlen p - 1)) :: rat) \<le> of_int p" by (simp only: of_int_le_iff)
  then have lo: "(2::rat) powi (bitlen p - 1) \<le> of_int p"
    using bp by (simp add: power_int_def)
  have "q < 2 ^ nat (bitlen q)" using bitlen_bounds[OF q] by simp
  then have "(of_int q :: rat) < of_int ((2::int) ^ nat (bitlen q))" by (simp only: of_int_less_iff)
  then have hi: "of_int q < (2::rat) powi (bitlen q)"
    using bq by (simp add: power_int_def)
  have "(2::rat) powi (?k - 1) = 2 powi (bitlen p - 1) / 2 powi (bitlen q)"
    by (simp add: power_int_diff)
  also have "\<dots> \<le> of_int p / of_int q"
    using lo hi q p by (intro frac_le) auto
  finally have "(2::rat) powi (?k - 1) \<le> \<bar>x\<bar>" using x by simp
  then show ?thesis by (simp add: float_exponent_def pq Let_def)
qed

lemma fl_error: "\<bar>fl x - x\<bar> \<le> \<bar>x\<bar> / 2 ^ 53"
proof (cases "x = 0")
  case True
  then show ?thesis by (simp add: fl_def)
next
  case False
  define u :: rat where "u = 2 powi (float_exponent x - 52)"
  have u: "0 < u" by (simp add: u_def)
  have "fl x - x = (of_int (round_half_even (x / u)) - x / u) * u"
    using False u by (simp add: fl_def u_def Let_def algebra_simps)
  then have "\<bar>fl x - x\<bar> = \<bar>of_int (round_half_even (x / u)) - x / u\<bar> * u"
    using u by (simp add: abs_mult)
  also have "\<dots> \<le> 1 / 2 * u"
    using round_half_even_error[of "x / u"] u by (intro mult_right_mono) auto
  also have "\<dots> = 2 powi (float_exponent x) / 2 ^ 53"
    by (simp add: u_def power_int_diff)
  also have "\<dots> \<le> \<bar>x\<bar> / 2 ^ 53"
    using float_exponent_le[OF False] by (simp add: divide_right_mono)
  finally show ?thesis .
qed

lemma round_half_even_of_int [simp]: "round_half_even (of_int m) = m"
  by (simp add: round_half_even_def)

lemma float_exponent_gt:
  assumes "x \<noteq> 0"
  shows "\<bar>x\<bar> < 2 powi (float_exponent x + 1)"
proof -
  obtain p q where pq: "quotient_of \<bar>x\<bar> = (p, q)" by (cases "quotient_of \<bar>x\<bar>")
  then have q: "0 < q" and x: "\<bar>x\<bar> = of_int p / of_int q"
    by (auto dest: quotient_of_denom_pos quotient_of_div)
  from assms have "0 < \<bar>x\<bar>" by simp
  with x q have p: "0 < p" by (simp add: zero_less_divide_iff)
  let ?k = "bitlen p - bitlen q"
  have bp: "1 \<le> bitlen p" and bq: "1 \<le> bitlen q" using p q by (auto simp: bitlen_alt_def)
  have "p < 2 ^ nat (bitlen p)" using bitlen_bounds[OF p] by simp
  then have "(of_int p :: rat) < of_int ((2::int) ^ nat (bitlen p))" by (simp only: of_int_less_iff)
  then have hi: "of_int p < (2::rat) powi (bitlen p)"
    using bp by (simp add: power_int_def)
  have "(2::int) ^ nat (bitlen q - 1) \<le> q" using bitlen_bounds[OF q] by simp
  then have "(of_int ((2::int) ^ nat (bitlen q - 1)) :: rat) \<le> of_int q" by (simp only: of_int_le_iff)
  then have lo: "(2::rat) powi (bitlen q - 1) \<le> of_int q"
    using bq by (simp add: power_int_def)
  have "of_int p / of_int q < (2::rat) powi (bitlen p) / 2 powi (bitlen q - 1)"
    using lo hi q p by (intro frac_less) auto
  also have "\<dots> = 2 powi (?k + 1)"
    by (simp add: power_int_diff power_int_add field_simps)
  finally have "\<bar>x\<bar> < 2 powi (?k + 1)" using x by simp
  then show ?thesis by (auto simp: float_exponent_def pq Let_def)
qed

lemma fl_of_int:
  assumes "\<bar>n\<bar> < 2 ^ 53"
  shows "fl (of_int n) = of_int n"
proof (cases "n = 0")
  case True
  then show ?thesis by (simp add: fl_def)
next
  case False
  let ?x = "of_int n :: rat"
  let ?e = "float_exponent ?x"
  from False have x0: "?x \<noteq> 0" by simp
  have "1 \<le> \<bar>?x\<bar>" using False by (simp flip: of_int_abs add: of_int_le_iff[where 'a = rat, of 1, simplified])
  with float_exponent_gt[OF x0] have "(2::rat) powi 0 < 2 powi (?e + 1)" by simp
  then have e0: "0 \<le> ?e"
    using power_int_increasing[of "?e + 1" 0 "2::rat"] by (cases "0 \<le> ?e") auto
  have "\<bar>?x\<bar> < 2 ^ 53" using assms by (simp flip: of_int_abs add: of_int_less_iff[where 'a = rat, of _ "2 ^ 53", simplified])
  with float_exponent_le[OF x0] have "(2::rat) powi ?e < 2 powi 53" by simp
  then have e52: "?e \<le> 52"
    using power_int_increasing[of 53 ?e "2::rat"] by (cases "?e \<le> 52") auto
  define j where "j = nat (52 - ?e)"
  have u: "(2::rat) powi (?e - 52) = 1 / 2 ^ j"
    using e52 by (simp add: j_def power_int_def field_simps)
  have "?x / (1 / 2 ^ j) = of_int (n * 2 ^ j)" by simp
  then have "round_half_even (?x / (1 / 2 ^ j)) = n * 2 ^ j"
    by (simp only: round_half_even_of_int)
  then show ?thesis using x0 by (simp add: fl_def Let_def u)
qed

section \<open>The gradient is the exact ramp\<close>

lemma coprime_131: 
  fixes d :: int
  assumes "d \<noteq> 0" "-7 \<le> d" "d \<le> 7"
  shows "coprime 131 d"
proof -
  from assms have "d \<in> {-7,-6,-5,-4,-3,-2,-1,1,2,3,4,5,6,7}" by simp arith
  then show ?thesis
    by (elim insertE emptyE) (simp_all add: coprime_iff_gcd_eq_1 gcd_non_0_int)
qed

lemma dvd_131_cases:
  fixes p d :: int
  assumes "131 dvd p * d" "0 \<le> p" "p \<le> 131" "-7 \<le> d" "d \<le> 7"
  shows "p = 0 \<or> p = 131 \<or> d = 0"
proof (cases "d = 0")
  case False
  with assms have "coprime 131 d" by (intro coprime_131) auto
  with assms(1) have "131 dvd p" by (simp add: coprime_dvd_mult_left_iff)
  then obtain k where "p = 131 * k" ..
  with assms(2,3) show ?thesis by auto
qed simp

lemma int_of_float_of_int [simp]: "int_of_float (of_int n) = n"
  by (simp add: int_of_float_def)

lemma gradient_code_exact:
  fixes s t :: int and row col :: nat
  assumes s: "63 \<le> s" "s \<le> 70" and t: "63 \<le> t" "t \<le> 70" and pos: "row * 22 + col \<le> 131"
  shows "gradient_code s t row col = s + (int (row * 22 + col) * (t - s)) div 131"
proof -
  define p where "p = int (row * 22 + col)"
  define d where "d = t - s"
  define r where "r = fl (of_int p / 131)"
  define m where "m = fl (r * of_int d)"
  define a where "a = fl (of_int s + m)"
  define eps :: rat where "eps = 1 / 2 ^ 53"
  have p: "0 \<le> p" "p \<le> 131" using pos by (simp_all add: p_def)
  have d: "-7 \<le> d" "d \<le> 7" using s t by (simp_all add: d_def)
  have fs: "fl (of_int s) = of_int s" using s by (intro fl_of_int) simp
  have fd: "fl (of_int d) = of_int d" using d by (intro fl_of_int) simp
  have gc: "gradient_code s t row col = int_of_float a"
    by (simp add: gradient_code_def int_true_divide_def float_of_int_def float_mul_def
        float_add_def Let_def fs fd[unfolded d_def] a_def m_def r_def p_def d_def
        del: of_int_diff)
  have f0: "fl 0 = 0" by (simp add: fl_def)
  let ?n = "s + (p * d) div 131"
  have "int_of_float a = ?n"
  proof (cases "131 dvd p * d")
    case True
    then consider "p = 0" | "p = 131" | "d = 0"
      using dvd_131_cases[OF _ p d] by blast
    then have "a = of_int ?n"
    proof cases
      case 1
      then show ?thesis by (simp add: a_def m_def r_def fs f0)
    next
      case 2
      have "fl 1 = 1" using fl_of_int[of 1] by simp
      moreover have "fl (of_int s + of_int d) = of_int (s + d)"
        using fl_of_int[of "s + d"] s t by (simp add: d_def)
      ultimately show ?thesis using 2 by (simp add: a_def m_def r_def fd)
    next
      case 3
      then show ?thesis by (simp add: a_def m_def fs f0)
    qed
    then show ?thesis by (simp only: int_of_float_of_int)
  next
    case False
    define exact :: rat where "exact = of_int s + of_int (p * d) / 131"
    have md: "p * d = 131 * ((p * d) div 131) + (p * d) mod 131" by simp
    have "(p * d) mod 131 \<noteq> 0" using False by (simp add: dvd_eq_mod_eq_0)
    moreover have "0 \<le> (p * d) mod 131" "(p * d) mod 131 < 131" by simp_all
    ultimately have rem: "1 \<le> (p * d) mod 131" "(p * d) mod 131 \<le> 130" by linarith+
    have "(of_int (p * d) :: rat) = of_int (131 * ((p * d) div 131) + (p * d) mod 131)"
      by (simp only: mult_div_mod_eq)
    then have "(of_int (p * d) :: rat) = 131 * of_int ((p * d) div 131) + of_int ((p * d) mod 131)"
      by (simp only: of_int_add of_int_mult of_int_numeral)
    then have "of_int (p * d) / 131 = (of_int ((p * d) div 131) :: rat) + of_int ((p * d) mod 131) / 131"
      by (simp only: add_divide_distrib)
    moreover have "(1::rat) \<le> of_int ((p * d) mod 131)" "(of_int ((p * d) mod 131) :: rat) \<le> 130"
      using rem by (simp_all only: of_int_le_iff[where 'a = rat, of 1, simplified] of_int_le_iff[where 'a = rat, of _ 130, simplified])
    ultimately have lo: "of_int ?n + 1 / 131 \<le> exact" and hi: "exact \<le> of_int ?n + 130 / 131"
      by (simp_all add: exact_def field_simps)
    have eps: "0 < eps" "99 * eps < 1 / 131" by (simp_all add: eps_def)
    have eps1: "eps \<le> 1" "21 * eps \<le> 1" by (simp_all add: eps_def)
    have q: "0 \<le> (of_int p :: rat) / 131" "(of_int p :: rat) / 131 \<le> 1" using p by simp_all
    have e1: "\<bar>r - of_int p / 131\<bar> \<le> eps"
    proof -
      have "\<bar>r - of_int p / 131\<bar> \<le> \<bar>of_int p / 131\<bar> * eps"
        using fl_error[of "of_int p / 131"] by (simp add: r_def eps_def)
      also have "\<dots> \<le> 1 * eps" using q eps by (intro mult_right_mono) auto
      finally show ?thesis by simp
    qed
    have r2: "\<bar>r\<bar> \<le> 2" using e1 q eps1 by linarith
    have ad: "\<bar>of_int d :: rat\<bar> \<le> 7" using d by (simp add: abs_le_iff) 
    have rd: "\<bar>r * of_int d\<bar> \<le> 14"
    proof -
      have "\<bar>r * of_int d\<bar> = \<bar>r\<bar> * \<bar>of_int d\<bar>" by (simp add: abs_mult)
      also have "\<dots> \<le> 2 * 7" using r2 ad by (intro mult_mono) auto
      finally show ?thesis by simp
    qed
    have e2: "\<bar>m - r * of_int d\<bar> \<le> 14 * eps"
    proof -
      have "\<bar>m - r * of_int d\<bar> \<le> \<bar>r * of_int d\<bar> * eps"
        using fl_error[of "r * of_int d"] by (simp add: m_def eps_def)
      also have "\<dots> \<le> 14 * eps" using rd eps by (intro mult_right_mono) auto
      finally show ?thesis .
    qed
    have e2': "\<bar>r * of_int d - of_int (p * d) / 131\<bar> \<le> 7 * eps"
    proof -
      have "r * of_int d - of_int (p * d) / 131 = (r - of_int p / 131) * of_int d"
        by (simp add: algebra_simps)
      then have "\<bar>r * of_int d - of_int (p * d) / 131\<bar> = \<bar>r - of_int p / 131\<bar> * \<bar>of_int d\<bar>"
        by (simp only: abs_mult)
      also have "\<dots> \<le> eps * 7" using e1 ad by (intro mult_mono) auto
      finally show ?thesis by simp
    qed
    have k7: "\<bar>of_int (p * d) / 131 :: rat\<bar> \<le> 7"
    proof -
      have "\<bar>of_int (p * d) / 131 :: rat\<bar> = \<bar>of_int p / 131\<bar> * \<bar>of_int d\<bar>"
        by (simp add: abs_mult)
      also have "\<dots> \<le> 1 * 7" using q ad by (intro mult_mono) auto
      finally show ?thesis by simp
    qed
    have em: "\<bar>m - of_int (p * d) / 131\<bar> \<le> 21 * eps" using e2 e2' by linarith
    have m8: "\<bar>m\<bar> \<le> 8" using em k7 eps1 by linarith
    have sm: "\<bar>of_int s + m\<bar> \<le> 78"
    proof -
      have "(of_int s :: rat) \<le> 70" "(0::rat) \<le> of_int s" using s by simp_all
      then show ?thesis using m8 by linarith
    qed
    have e3: "\<bar>a - (of_int s + m)\<bar> \<le> 78 * eps"
    proof -
      have "\<bar>a - (of_int s + m)\<bar> \<le> \<bar>of_int s + m\<bar> * eps"
        using fl_error[of "of_int s + m"] by (simp add: a_def eps_def)
      also have "\<dots> \<le> 78 * eps" using sm eps by (intro mult_right_mono) auto
      finally show ?thesis .
    qed
    have "\<bar>a - exact\<bar> \<le> 99 * eps" using e3 em by (simp add: exact_def)
    then have close: "\<bar>a - exact\<bar> < 1 / 131" using eps by linarith
    have "of_int ?n < a" "a < of_int ?n + 1" using close lo hi by linarith+
    then have fa: "\<lfloor>a\<rfloor> = ?n" by (intro floor_unique) auto
    have "(0::rat) \<le> of_int ?n"
    proof -
      have "- 917 \<le> p * d"
      proof -
        have "p * (-7) \<le> p * d" using p d by (intro mult_left_mono) auto
        then show ?thesis using p by linarith
      qed
      then have "- 7 \<le> (p * d) div 131" by (simp add: pos_le_divide_eq zdiv_mono1 flip: )
      then show ?thesis using s by simp
    qed
    then have "0 \<le> a" using \<open>of_int ?n < a\<close> by linarith
    then show ?thesis using fa by (simp add: int_of_float_def)
  qed
  then show ?thesis using gc by (simp add: p_def d_def)
qed

lemma COLOR_CODES_range: "COLOR_CODES k = Some v \<Longrightarrow> 63 \<le> v \<and> v \<le> 70"
  by (auto simp: COLOR_CODES_def split: if_splits)

lemma color_default_range: "63 \<le> dict_get COLOR_CODES k 70 \<and> dict_get COLOR_CODES k 70 \<le> 70"
  by (auto simp: dict_get_def dest: COLOR_CODES_range split: option.splits)

lemma position_bound: "r < 6 \<Longrightarrow> c < 22 \<Longrightarrow> r * 22 + c \<le> (131::nat)"
  by simp

lemma create_gradient_background_cell:
  assumes "r < 6" "c < 22"
  shows "create_gradient_background start_color end_color ! r ! c =
    dict_get COLOR_CODES (lower start_color) 70
      + (int (r * 22 + c) * (dict_get COLOR_CODES (lower end_color) 70
           - dict_get COLOR_CODES (lower start_color) 70)) div 131"
proof -
  have "create_gradient_background start_color end_color ! r ! c =
      gradient_code (dict_get COLOR_CODES (lower start_color) 70)
        (dict_get COLOR_CODES (lower end_color) 70) r c"
    using assms by (simp add: create_gradient_background_def Let_def)
  also have "\<dots> = dict_get COLOR_CODES (lower start_color) 70
      + (int (r * 22 + c) * (dict_get COLOR_CODES (lower end_color) 70
           - dict_get COLOR_CODES (lower start_color) 70)) div 131"
    using color_default_range[of "lower start_color"] color_default_range[of "lower end_color"]
      position_bound[OF assms]
    by (intro gradient_code_exact) auto
  finally show ?thesis .
qed

lemma floor_ramp:
  "\<lfloor>(of_int s :: rat) + (of_nat p / 131) * of_int d\<rfloor> = s + (int p * d) div 131"
proof -
  have "(of_int s :: rat) + (of_nat p / 131) * of_int d = of_int s + of_int (int p * d) / of_int 131"
    by simp
  also have "\<lfloor>\<dots>\<rfloor> = s + (int p * d) div 131"
    by (simp only: int_add_floor[symmetric] floor_divide_of_int_eq)
  finally show ?thesis .
qed

section \<open>Wrapping\<close>

lemma join_words_Cons: "ws \<noteq> [] \<Longrightarrow> join_words (w # ws) = w @ '' '' @ join_words ws"
  by (cases ws) auto

lemma length_join_words_Cons: "length w \<le> length (join_words (w # ws))"
  by (cases ws) auto

lemma wrap_loop_fits:
  assumes "\<forall>w\<in>set ws. w \<noteq> []" and "cur \<noteq> []" and "length (join_words (cur # ws)) \<le> 22"
  shows "foldl wrap_step (ls, cur) ws = (ls, join_words (cur # ws))"
  using assms
proof (induction ws arbitrary: cur)
  case Nil
  then show ?case by simp
next
  case (Cons w ws)
  have len: "length (join_words (cur # w # ws)) = length cur + 1 + length (join_words (w # ws))"
    by simp
  with Cons.prems(3) length_join_words_Cons[of w ws]
  have fit: "length cur + length w + 1 \<le> 22" by linarith
  have step: "wrap_step (ls, cur) w = (ls, cur @ '' '' @ w)"
    using fit Cons.prems(2) by (simp add: wrap_step_def)
  have same: "join_words ((cur @ '' '' @ w) # ws) = join_words (cur # w # ws)"
    by (cases ws) auto
  have p1: "\<forall>w\<in>set ws. w \<noteq> []" using Cons.prems(1) by simp
  have p2: "cur @ '' '' @ w \<noteq> []" by simp
  have p3: "length (join_words ((cur @ '' '' @ w) # ws)) \<le> 22"
    using Cons.prems(3) by (simp only: same)
  have "foldl wrap_step (ls, cur @ '' '' @ w) ws = (ls, join_words ((cur @ '' '' @ w) # ws))"
    using p1 p2 p3 by (rule Cons.IH)
  then show ?case by (simp only: foldl_Cons step same)
qed

lemma wrap_loop_one_line:
  assumes "ws \<noteq> []" and "\<forall>w\<in>set ws. w \<noteq> []" and "length (join_words ws) \<le> 22"
  shows "foldl wrap_step ([], []) ws = ([], join_words ws)"
proof -
  from assms(1) obtain w rest where ws: "ws = w # rest" by (cases ws) auto
  with assms have w: "w \<noteq> []" "length w \<le> 22"
    using length_join_words_Cons[of w rest] by auto
  then have "wrap_step ([], []) w = ([], w)" by (simp add: wrap_step_def)
  moreover have "foldl wrap_step ([], w) rest = ([], join_words (w # rest))"
    using assms w ws by (intro wrap_loop_fits) auto
  ultimately show ?thesis by (simp add: ws)
qed

lemma split_from_nonempty: "v \<in> set (split_from w cs) \<Longrightarrow> v \<noteq> []"
  by (induction cs arbitrary: w) (auto split: if_splits)

lemma join_words_nonempty: "ws \<noteq> [] \<Longrightarrow> \<forall>w\<in>set ws. w \<noteq> [] \<Longrightarrow> join_words ws \<noteq> []"
  by (cases ws rule: join_words.cases) auto

lemma split_from_append_word:
  assumes "\<not> isspace c"
  shows "split_from w (cs @ [CHR '' '', c]) = split_from w cs @ [ [c] ]"
  using assms by (induction cs arbitrary: w) (auto simp: isspace_def)

section \<open>When the composer returns\<close>

lemma overlay_line_skip:
  "overlay_line i j (replicate n None @ cells) m = overlay_line i (j + n) cells m"
  by (induction n arbitrary: j) auto

lemma overlay_skip_rows:
  "overlay i (replicate n (replicate k None) @ ls) m = overlay (i + n) ls m"
  by (induction n arbitrary: i) (auto simp: overlay_line_transparent)

lemma create_message_matrix_shape:
  assumes "create_message_matrix cc message color j gradient = Inr g"
  shows "length g = 6 \<and> (\<forall>row\<in>set g. length row = 22)"
proof -
  from assms have "map length g = replicate 6 22"
    by (auto simp: create_message_matrix_def background_matrix_shape dest: overlay_shape)
  then have "length g = 6" "set (map length g) \<subseteq> {22}"
    by (metis length_map length_replicate, simp)
  then show ?thesis by auto
qed

lemma wrap_loop_width:
  assumes "\<forall>w\<in>set ws. length w \<le> 22" and "\<forall>l\<in>set ls. length l \<le> 22" and "length cur \<le> 22"
  shows "case foldl wrap_step (ls, cur) ws of (ls', cur') \<Rightarrow>
           (\<forall>l\<in>set ls'. length l \<le> 22) \<and> length cur' \<le> 22"
  using assms
proof (induction ws arbitrary: ls cur)
  case Nil
  then show ?case by simp
next
  case (Cons w ws)
  obtain ls1 cur1 where st: "wrap_step (ls, cur) w = (ls1, cur1)" by (cases "wrap_step (ls, cur) w")
  with Cons.prems have "\<forall>l\<in>set ls1. length l \<le> 22" "length cur1 \<le> 22"
    by (auto simp: wrap_step_def split: if_splits)
  with Cons.prems(1) Cons.IH[of ls1 cur1] show ?case by (simp add: st)
qed

lemma wrap_lines_width:
  assumes "\<forall>w\<in>set ws. length w \<le> 22"
  shows "\<forall>l\<in>set (wrap_lines ws). length l \<le> 22"
  using wrap_loop_width[OF assms, of "[]" "[]"]
  by (auto simp: wrap_lines_def split: prod.splits if_splits)

lemma length_justify_line:
  "length codes \<le> 22 \<Longrightarrow> length (justify_line j codes) = 22"
  by (cases j) (auto simp: justify_line_def Let_def)

lemma justified_lines_shape:
  assumes "\<forall>l\<in>set (take 6 (wrap_lines (str_split message))). length l \<le> 22"
  shows "length (justified_lines cc message j) \<le> 6
    \<and> (\<forall>row\<in>set (justified_lines cc message j). length row = 22)"
proof -
  let ?rows = "map (\<lambda>line. justify_line j (convert_text_to_codes cc line))
     (take 6 (wrap_lines (str_split message)))"
  have a: "length ?rows \<le> 6" by simp
  have b: "\<forall>row\<in>set ?rows. length row = 22"
    using assms by (auto simp: length_justify_line)
  have "length (center_vertically j ?rows) \<le> 6"
    using a by (auto simp: center_vertically_def Let_def)
  moreover have "\<forall>row\<in>set (center_vertically j ?rows). length row = 22"
    using b by (auto simp: center_vertically_def Let_def)
  ultimately show ?thesis by (simp add: justified_lines_def)
qed

lemma create_message_matrix_returns:
  assumes "\<forall>l\<in>set (take 6 (wrap_lines (str_split message))). length l \<le> 22"
  shows "\<exists>g. create_message_matrix cc message color j gradient = Inr g
           \<and> length g = 6 \<and> (\<forall>row\<in>set g. length row = 22)"
proof -
  let ?ls = "justified_lines cc message j"
  let ?m = "background_matrix color gradient"
  from justified_lines_shape[OF assms, of cc j]
  have ls: "length ?ls \<le> 6" "\<forall>row\<in>set ?ls. length row = 22" by blast+
  have "\<forall>r<length ?ls. \<forall>k<length (?ls ! r). ?ls ! r ! k \<noteq> None
          \<longrightarrow> 0 + r < length ?m \<and> k < length (?m ! (0 + r))"
    using ls by (auto simp: background_matrix_length background_matrix_row)
  from overlay_total[OF this] obtain g where "overlay 0 ?ls ?m = Inr g" by blast
  then have g: "create_message_matrix cc message color j gradient = Inr g"
    by (simp add: create_message_matrix_def)
  with create_message_matrix_shape[OF g] show ?thesis by blast
qed

lemma short_words_return:
  assumes "\<forall>w\<in>set (str_split message). length w \<le> 22"
  shows "\<exists>g. create_message_matrix cc message color j gradient = Inr g
           \<and> length g = 6 \<and> (\<forall>row\<in>set g. length row = 22)"
proof -
  from wrap_lines_width[OF assms]
  have "\<forall>l\<in>set (take 6 (wrap_lines (str_split message))). length l \<le> 22"
    by (auto dest: in_set_takeD)
  then show ?thesis by (rule create_message_matrix_returns)
qed

lemma justify_line_long:
  "22 < length codes \<Longrightarrow> justify_line j codes = map Some codes"
  by (cases j) (auto simp: justify_line_def Let_def)

lemma long_line_raises:
  assumes "l \<in> set (take 6 (wrap_lines (str_split message)))" and "22 < length l"
  shows "create_message_matrix cc message color j gradient = Inl IndexError"
proof -
  let ?lines = "take 6 (wrap_lines (str_split message))"
  let ?rows = "map (\<lambda>line. justify_line j (convert_text_to_codes cc line)) ?lines"
  let ?ls = "justified_lines cc message j"
  from assms(1) obtain k where k: "k < length ?lines" "?lines ! k = l"
    by (auto simp: in_set_conv_nth)
  have row: "?rows ! k = map Some (convert_text_to_codes cc l)"
    using k assms(2) by (simp add: justify_line_long)
  define top where "top = (if j = Center then nat ((6 - int (length ?rows)) div 2) else 0)"
  have at: "top + k < length ?ls \<and> ?ls ! (top + k) = ?rows ! k"
    using k(1) by (auto simp: justified_lines_def center_vertically_def Let_def top_def nth_append)
  have cell: "22 < length (?ls ! (top + k)) \<and> ?ls ! (top + k) ! 22 \<noteq> None"
    using at row assms(2) by simp
  have "create_message_matrix cc message color j gradient \<noteq> Inr g" for g
  proof
    assume "create_message_matrix cc message color j gradient = Inr g"
    then have ov: "overlay 0 ?ls (background_matrix color gradient) = Inr g"
      by (simp add: create_message_matrix_def)
    from overlay_in_range[OF ov, of "top + k" 22] at cell
    have "top + k < 6 \<and> 22 < length (background_matrix color gradient ! (top + k))"
      by (simp add: background_matrix_length)
    then show False using background_matrix_row[of "top + k" color gradient] by simp
  qed
  then show ?thesis
    by (cases "create_message_matrix cc message color j gradient") (auto intro: error.exhaust)
qed

lemma create_message_matrix_raises_iff:
  "create_message_matrix cc message color j gradient = Inl IndexError
     \<longleftrightarrow> (\<exists>l\<in>set (take 6 (wrap_lines (str_split message))). 22 < length l)"
proof
  assume "create_message_matrix cc message color j gradient = Inl IndexError"
  then have "\<not> (\<forall>l\<in>set (take 6 (wrap_lines (str_split message))). length l \<le> 22)"
    using create_message_matrix_returns[of message cc color j gradient] by auto
  then show "\<exists>l\<in>set (take 6 (wrap_lines (str_split message))). 22 < length l"
    by (auto simp: not_le)
next
  assume "\<exists>l\<in>set (take 6 (wrap_lines (str_split message))). 22 < length l"
  then show "create_message_matrix cc message color j gradient = Inl IndexError"
    by (auto intro: long_line_raises)
qed

lemma black_code: "dict_get COLOR_CODES (lower ''black'') 70 = 70"
  by code_simp

section \<open>The claims\<close>

text \<open>
  Claim C1. The claim says that the cell of a space inside the text keeps the background
  fill code. The code encodes a space as 0, not as \<^verbatim>\<open>None\<close>, and the last loop writes every
  cell that is not \<^verbatim>\<open>None\<close>: for the message \<^verbatim>\<open>"A B"\<close> on red the cell (0, 1) holds 0, while
  the cells that were never written hold 63. The docstring of \<^verbatim>\<open>convert_text_to_codes\<close>
  ("to preserve background") and the comments of the last loop ("preserving background for
  spaces", "Only add non-space characters") say what the claim says.
\<close>

theorem interior_space_writes_zero:
  "create_message_matrix cc ''A B'' (Some ''red'') Left None
     = Inr (([dict_get cc ''A'' 0, 0, dict_get cc ''B'' 0] @ replicate 19 63)
            # replicate 5 (replicate 22 63))"
  by code_simp

text \<open>
  Claim C2. The claim says that no input makes \<^verbatim>\<open>create_message_matrix\<close> raise. A word of
  23 characters does, whatever the table, the colour, the justification and the gradient:
  its line has 23 codes, none of them \<^verbatim>\<open>None\<close>, and the assignment to column 22 raises
  \<^verbatim>\<open>IndexError\<close>.
\<close>

theorem long_word_raises_IndexError:
  "create_message_matrix cc ''AAAAAAAAAAAAAAAAAAAAAAA'' color j gradient = Inl IndexError"
  by (rule long_word_raises) (simp_all add: isspace_def)

text \<open>
  Claim C3. The claim says that a word longer than 22 characters is cut to its first 22
  characters when it is encoded. It is on a line of its own (after an empty first line),
  but \<^verbatim>\<open>convert_text_to_codes\<close> encodes every character of it and the composer raises
  \<^verbatim>\<open>IndexError\<close> instead of returning a row.
\<close>

theorem long_word_not_truncated:
  assumes "\<forall>c\<in>set w. \<not> isspace c" and "22 < length w"
  shows "wrap_lines (str_split w) = [ [], w]
    \<and> length (convert_text_to_codes cc w) = length w
    \<and> create_message_matrix cc w color j gradient = Inl IndexError"
proof -
  from assms have "str_split w = [w]"
    by (auto simp: str_split_def split_from_word)
  with assms(2) have "wrap_lines (str_split w) = [ [], w]"
    by (simp add: wrap_lines_long_word)
  with long_word_raises[OF assms] show ?thesis by simp
qed

theorem long_word_not_truncated_witness:
  "22 < length ''ABCDEFGHIJKLMNOPQRSTUVWXYZ''
   \<and> wrap_lines (str_split ''ABCDEFGHIJKLMNOPQRSTUVWXYZ'') = [ [], ''ABCDEFGHIJKLMNOPQRSTUVWXYZ'']
   \<and> length (convert_text_to_codes Map.empty ''ABCDEFGHIJKLMNOPQRSTUVWXYZ'') = 26
   \<and> create_message_matrix Map.empty ''ABCDEFGHIJKLMNOPQRSTUVWXYZ'' None Left None = Inl IndexError"
proof -
  have h: "\<forall>c\<in>set ''ABCDEFGHIJKLMNOPQRSTUVWXYZ''. \<not> isspace c"
    "22 < length ''ABCDEFGHIJKLMNOPQRSTUVWXYZ''"
    by (simp_all add: isspace_def)
  from long_word_not_truncated[OF h, of Map.empty None Left None] h show ?thesis by simp
qed

text \<open>
  Claim C4, as the code has it. A colour name that is not in the table counts as black (70)
  in the gradient path: it can be replaced by \<^verbatim>\<open>"black"\<close> at either end, and a gradient
  between two unknown names is all 70. In the solid fill path an unknown name, and no name,
  give the fill code 0.
\<close>

theorem unknown_color_fallback:
  assumes "COLOR_CODES (lower name) = None"
  shows "create_gradient_background name other = create_gradient_background ''black'' other
    \<and> create_gradient_background other name = create_gradient_background other ''black''
    \<and> create_gradient_background name name = replicate 6 (replicate 22 70)
    \<and> background_matrix (Some name) None = replicate 6 (replicate 22 0)
    \<and> background_matrix None None = replicate 6 (replicate 22 0)"
proof -
  have d: "dict_get COLOR_CODES (lower name) 70 = 70" "dict_get COLOR_CODES (lower name) 0 = 0"
    using assms by (simp_all add: dict_get_def)
  have g1: "create_gradient_background name other = create_gradient_background ''black'' other"
    and g2: "create_gradient_background other name = create_gradient_background other ''black''"
    by (simp_all only: create_gradient_background_def d black_code)
  have g3: "create_gradient_background name name = replicate 6 (replicate 22 70)"
  proof (rule nth_equalityI)
    show "length (create_gradient_background name name) = length (replicate 6 (replicate 22 (70::int)))"
      using create_gradient_background_shape[of name name] by (metis length_map length_replicate)
  next
    fix r assume "r < length (create_gradient_background name name)"
    then have r: "r < 6"
      using create_gradient_background_shape[of name name] by (metis length_map length_replicate)
    have len: "length (create_gradient_background name name ! r) = 22"
      using create_gradient_background_shape[of name name] r
      by (metis length_map length_replicate nth_map nth_replicate)
    have "create_gradient_background name name ! r = replicate 22 70"
    proof (rule nth_equalityI)
      show "length (create_gradient_background name name ! r) = length (replicate 22 (70::int))"
        using len by simp
    next
      fix c assume "c < length (create_gradient_background name name ! r)"
      then have c: "c < 22" using len by simp
      show "create_gradient_background name name ! r ! c = replicate 22 70 ! c"
        using create_gradient_background_cell[OF r c, of name name] c by (simp add: d)
    qed
    then show "create_gradient_background name name ! r = replicate 6 (replicate 22 70) ! r"
      using r by simp
  qed
  have s1: "background_matrix (Some name) None = replicate 6 (replicate 22 0)"
    and s2: "background_matrix None None = replicate 6 (replicate 22 0)"
    by (simp_all add: background_matrix_def d)
  from g1 g2 g3 s1 s2 show ?thesis by blast
qed

theorem unknown_color_fallback_witness:
  "COLOR_CODES (lower ''chartreuse'') = None
   \<and> create_gradient_background ''chartreuse'' ''red'' = create_gradient_background ''black'' ''red''
   \<and> create_gradient_background ''red'' ''chartreuse'' = create_gradient_background ''red'' ''black''
   \<and> create_gradient_background ''chartreuse'' ''chartreuse'' = replicate 6 (replicate 22 70)
   \<and> background_matrix (Some ''chartreuse'') None = replicate 6 (replicate 22 0)"
proof -
  have h: "COLOR_CODES (lower ''chartreuse'') = None" by code_simp
  from unknown_color_fallback[OF h, of "''red''"] h show ?thesis by blast
qed

text \<open>
  Claim C4, as stated, fails in the solid fill path: with the unknown name
  \<^verbatim>\<open>"chartreuse"\<close>, and with no colour, every cell is 0 and not 70.
\<close>

theorem unknown_color_solid_fill_counterexample:
  "COLOR_CODES (lower ''chartreuse'') = None
   \<and> create_message_matrix Map.empty [] (Some ''chartreuse'') Left None
       = Inr (replicate 6 (replicate 22 0))
   \<and> create_message_matrix Map.empty [] (Some ''chartreuse'') Left None
       \<noteq> Inr (replicate 6 (replicate 22 70))
   \<and> create_message_matrix Map.empty [] None Left None \<noteq> Inr (replicate 6 (replicate 22 70))"
  by code_simp

text \<open>
  Claim C5. With both colour names in the table, the gradient background holds the start
  colour's code at cell (0, 0), the end colour's code at cell (5, 21), and at every row
  \<open>r\<close> and column \<open>c\<close> the floor of
  \<open>start_code + ((r * 22 + c) / 131) * (end_code - start_code)\<close>, the floor being that
  of exact arithmetic: the three roundings of the float computation never change it.
\<close>

theorem gradient_formula:
  assumes "COLOR_CODES (lower start_color) = Some start_code"
    and "COLOR_CODES (lower end_color) = Some end_code"
  shows "create_gradient_background start_color end_color ! 0 ! 0 = start_code
    \<and> create_gradient_background start_color end_color ! 5 ! 21 = end_code
    \<and> (\<forall>r<6. \<forall>c<22. create_gradient_background start_color end_color ! r ! c
          = \<lfloor>(of_int start_code :: rat)
               + (of_nat (r * 22 + c) / 131) * of_int (end_code - start_code)\<rfloor>)"
proof -
  have s: "dict_get COLOR_CODES (lower start_color) 70 = start_code"
    and e: "dict_get COLOR_CODES (lower end_color) 70 = end_code"
    using assms by (simp_all add: dict_get_def)
  have "create_gradient_background start_color end_color ! 0 ! 0 = start_code"
    using create_gradient_background_cell[of 0 0 start_color end_color] by (simp add: s e)
  moreover have "create_gradient_background start_color end_color ! 5 ! 21 = end_code"
    using create_gradient_background_cell[of 5 21 start_color end_color] by (simp add: s e)
  moreover have "create_gradient_background start_color end_color ! r ! c
      = \<lfloor>(of_int start_code :: rat) + (of_nat (r * 22 + c) / 131) * of_int (end_code - start_code)\<rfloor>"
    if "r < 6" "c < 22" for r c
    using create_gradient_background_cell[OF that, of start_color end_color]
    by (simp only: floor_ramp s e)
  ultimately show ?thesis by blast
qed

theorem gradient_formula_witness:
  "COLOR_CODES (lower ''red'') = Some 63 \<and> COLOR_CODES (lower ''Black'') = Some 70
   \<and> create_gradient_background ''red'' ''Black'' ! 0 ! 0 = 63
   \<and> create_gradient_background ''red'' ''Black'' ! 5 ! 21 = 70
   \<and> (2::nat) < 6 \<and> (10::nat) < 22
   \<and> create_gradient_background ''red'' ''Black'' ! 2 ! 10
       = \<lfloor>(of_int 63 :: rat) + (of_nat (2 * 22 + 10) / 131) * of_int (70 - 63)\<rfloor>"
proof -
  have h: "COLOR_CODES (lower ''red'') = Some 63" "COLOR_CODES (lower ''Black'') = Some 70"
    by code_simp+
  note t = gradient_formula[OF h]
  have b: "(2::nat) < 6" "(10::nat) < 22" by simp_all
  with t have "create_gradient_background ''red'' ''Black'' ! 2 ! 10
       = \<lfloor>(of_int 63 :: rat) + (of_nat (2 * 22 + 10) / 131) * of_int (70 - 63)\<rfloor>"
    by blast
  with t h b show ?thesis by blast
qed

text \<open>
  Claim C6. The claim says that every valid input gives a grid of 6 rows of 22 cells. A
  message with a word of more than 22 characters gives no grid: the composer raises
  \<^verbatim>\<open>IndexError\<close>. (On every other input it returns, and the grid has that shape:
  \<open>create_message_matrix_raises_iff\<close>, \<open>create_message_matrix_returns\<close>.)
\<close>

theorem no_grid_for_long_word:
  "create_message_matrix cc ''HELLO ABCDEFGHIJKLMNOPQRSTUVWXYZ'' (Some ''blue'') Center None
     = Inl IndexError"
  by code_simp

text \<open>
  Claim C7. A message whose words, written with single spaces, take exactly 22 characters
  is wrapped onto one line; with one more word of one character, that word alone is on a
  second line.
\<close>

theorem wrap_boundary:
  assumes "length (join_words (str_split message)) = 22"
    and "\<not> isspace c"
  shows "wrap_lines (str_split message) = [join_words (str_split message)]
    \<and> wrap_lines (str_split (message @ '' '' @ [c])) = [join_words (str_split message), [c] ]"
proof -
  let ?ws = "str_split message"
  have ne: "\<forall>w\<in>set ?ws. w \<noteq> []"
    by (auto simp: str_split_def dest: split_from_nonempty)
  have some: "?ws \<noteq> []" using assms(1) by auto
  have loop: "foldl wrap_step ([], []) ?ws = ([], join_words ?ws)"
    using some ne assms(1) by (intro wrap_loop_one_line) auto
  have line: "join_words ?ws \<noteq> []" using assms(1) by auto
  have one: "wrap_lines ?ws = [join_words ?ws]"
    using line by (simp add: wrap_lines_def loop)
  have more: "str_split (message @ '' '' @ [c]) = ?ws @ [ [c] ]"
    using assms(2) by (simp add: str_split_def split_from_append_word)
  have "wrap_step ([], join_words ?ws) [c] = ([join_words ?ws], [c])"
    using assms(1) by (simp add: wrap_step_def)
  then have "wrap_lines (?ws @ [ [c] ]) = [join_words ?ws, [c] ]"
    by (simp add: wrap_lines_def loop)
  with one more show ?thesis by simp
qed

theorem wrap_boundary_witness:
  "length (join_words (str_split ''THE QUICK BROWN FOX OK'')) = 22
   \<and> \<not> isspace CHR ''X''
   \<and> wrap_lines (str_split ''THE QUICK BROWN FOX OK'') = [''THE QUICK BROWN FOX OK'']
   \<and> wrap_lines (str_split ''THE QUICK BROWN FOX OK X'') = [''THE QUICK BROWN FOX OK'', ''X'']"
proof -
  have j: "join_words (str_split ''THE QUICK BROWN FOX OK'') = ''THE QUICK BROWN FOX OK''"
    by code_simp
  have h: "length (join_words (str_split ''THE QUICK BROWN FOX OK'')) = 22"
    "\<not> isspace CHR ''X''"
    by code_simp+
  from wrap_boundary[OF h] h show ?thesis by (simp add: j)
qed

text \<open>
  Claim C8. A centred line of at most 22 characters has \<open>(22 - len) div 2\<close> cells
  \<^verbatim>\<open>None\<close> on its left and the remaining \<open>22 - len - (22 - len) div 2\<close> on its right; for
  one character that is 10 and 11, and the grid of a one-character message is the
  background with the code written at row 2, column 10.
\<close>

theorem center_padding:
  assumes "length line \<le> 22"
  shows "justify_line Center (convert_text_to_codes cc line)
     = replicate ((22 - length line) div 2) None
         @ map Some (convert_text_to_codes cc line)
         @ replicate (22 - length line - (22 - length line) div 2) None
    \<and> (length line = 1 \<longrightarrow>
         justify_line Center (convert_text_to_codes cc line)
           = replicate 10 None @ map Some (convert_text_to_codes cc line) @ replicate 11 None)
    \<and> (length line = 1 \<and> \<not> isspace (hd line) \<longrightarrow>
         create_message_matrix cc line color Center gradient
           = Inr ((background_matrix color gradient)
                    [2 := (background_matrix color gradient ! 2)
                            [10 := hd (convert_text_to_codes cc line)] ]))"
proof -
  let ?codes = "convert_text_to_codes cc line"
  have n: "nat ((22 - int (length line)) div 2) = (22 - length line) div 2"
    "nat (22 - int (length line) - (22 - int (length line)) div 2)
       = 22 - length line - (22 - length line) div 2"
    using assms by (simp_all add: nat_div_distrib nat_diff_distrib)
  have general: "justify_line Center ?codes
     = replicate ((22 - length line) div 2) None @ map Some ?codes
         @ replicate (22 - length line - (22 - length line) div 2) None"
    by (simp add: justify_line_def Let_def n)
  have single: "justify_line Center ?codes
      = replicate 10 None @ map Some ?codes @ replicate 11 None" if "length line = 1"
    using general that by simp
  have whole: "create_message_matrix cc line color Center gradient
       = Inr ((background_matrix color gradient)
                [2 := (background_matrix color gradient ! 2) [10 := hd ?codes] ])"
    if "length line = 1 \<and> \<not> isspace (hd line)"
  proof -
    from that obtain ch where line: "line = [ch]" and ch: "\<not> isspace ch"
      by (cases line) auto
    obtain v where v: "?codes = [v]" by (simp add: line convert_text_to_codes_def)
    have sp: "str_split line = [line]" using ch by (simp add: line str_split_def)
    have wl: "wrap_lines [line] = [line]" by (simp add: line wrap_lines_def wrap_step_def)
    have jl: "justified_lines cc line Center
        = replicate 2 (replicate 22 None)
            @ [replicate 10 None @ [Some v] @ replicate 11 None]
            @ replicate 3 (replicate 22 None)"
      using single that by (simp add: justified_lines_def sp wl center_vertically_def v)
    have "overlay 0 (justified_lines cc line Center) (background_matrix color gradient)
        = Inr ((background_matrix color gradient)
                [2 := (background_matrix color gradient ! 2) [10 := v] ])"
      unfolding jl overlay_skip_rows
      by (simp add: overlay_line_skip set_cell_def background_matrix_length background_matrix_row
          overlay_line_transparent overlay_transparent numeral_2_eq_2)
    then show ?thesis by (simp add: create_message_matrix_def v)
  qed
  from general single whole show ?thesis by blast
qed

theorem center_padding_witness:
  "length ''A'' \<le> 22 \<and> length ''A'' = 1 \<and> \<not> isspace (hd ''A'')
   \<and> justify_line Center (convert_text_to_codes [''A'' \<mapsto> 1] ''A'')
       = replicate 10 None @ map Some (convert_text_to_codes [''A'' \<mapsto> 1] ''A'')
           @ replicate 11 None
   \<and> create_message_matrix [''A'' \<mapsto> 1] ''A'' (Some ''red'') Center None
       = Inr ((background_matrix (Some ''red'') None)
                [2 := (background_matrix (Some ''red'') None ! 2)
                        [10 := hd (convert_text_to_codes [''A'' \<mapsto> 1] ''A'')] ])"
proof -
  have h: "length ''A'' \<le> 22" "length ''A'' = 1" "\<not> isspace (hd ''A'')"
    by (simp_all add: isspace_def)
  from center_padding[OF h(1), of "[''A'' \<mapsto> 1]" "Some ''red''" None] h
  show ?thesis by blast
qed

text \<open>
  Claim C9. When the end code is greater than the start code, the cells of the gradient
  background never decrease along the reading order \<open>r * 22 + c\<close>.
\<close>

theorem gradient_monotone:
  assumes "dict_get COLOR_CODES (lower start_color) 70 < dict_get COLOR_CODES (lower end_color) 70"
    and "r < 6" "c < 22" "r' < 6" "c' < 22"
    and "r * 22 + c \<le> r' * 22 + c'"
  shows "create_gradient_background start_color end_color ! r ! c
     \<le> create_gradient_background start_color end_color ! r' ! c'"
proof -
  let ?s = "dict_get COLOR_CODES (lower start_color) 70"
  let ?e = "dict_get COLOR_CODES (lower end_color) 70"
  have "int (r * 22 + c) \<le> int (r' * 22 + c')" using assms(6) by linarith
  moreover have "0 \<le> ?e - ?s" using assms(1) by simp
  ultimately have "int (r * 22 + c) * (?e - ?s) \<le> int (r' * 22 + c') * (?e - ?s)"
    by (rule mult_right_mono)
  then have "(int (r * 22 + c) * (?e - ?s)) div 131 \<le> (int (r' * 22 + c') * (?e - ?s)) div 131"
    by (intro zdiv_mono1) auto
  then show ?thesis
    by (simp only: create_gradient_background_cell[OF assms(2,3)]
        create_gradient_background_cell[OF assms(4,5)] add_left_mono)
qed

theorem gradient_monotone_witness:
  "dict_get COLOR_CODES (lower ''red'') 70 < dict_get COLOR_CODES (lower ''black'') 70
   \<and> create_gradient_background ''red'' ''black'' ! 1 ! 21
       \<le> create_gradient_background ''red'' ''black'' ! 2 ! 0"
proof -
  have h: "dict_get COLOR_CODES (lower ''red'') 70 < dict_get COLOR_CODES (lower ''black'') 70"
    by code_simp
  from gradient_monotone[OF h, of 1 21 2 0] h show ?thesis by simp
qed

text \<open>
  Claim C10. For a message that is empty or all white space the result is the background
  grid itself, for every justification, colour and gradient.
\<close>

theorem blank_message_keeps_background:
  assumes "\<forall>c\<in>set message. isspace c"
  shows "create_message_matrix cc message color j gradient = Inr (background_matrix color gradient)"
proof -
  from assms have "str_split message = []"
    by (simp add: str_split_def split_from_blank)
  then have "\<forall>l\<in>set (justified_lines cc message j). \<forall>c\<in>set l. c = None"
    by (auto simp: justified_lines_def wrap_lines_def center_vertically_def Let_def)
  then show ?thesis
    by (simp add: create_message_matrix_def overlay_transparent)
qed

theorem blank_message_keeps_background_witness:
  "create_message_matrix Map.empty ''  '' (Some ''red'') Center None
     = Inr (background_matrix (Some ''red'') None)"
proof -
  have h: "\<forall>c\<in>set ''  ''. isspace c" by (simp add: isspace_def)
  from blank_message_keeps_background[OF h] show ?thesis by blast
qed

end
